theory Spec2Isabelle
  imports Complex_Main "HOL-Library.Word"
begin

unbundle bit_operations_syntax

section \<open>Values and errors\<close>

text \<open>
  A Python \<open>bytes\<close> object is a list of 8-bit words. A Python \<open>int\<close> is an
  \<open>int\<close>. Every exception the modelled functions can raise is a constructor
  of \<open>error\<close>; a function that can raise returns \<open>error + 'a\<close>.
\<close>

type_synonym byte = "8 word"

datatype error =
    IndexError
  | ValueError
  | TypeError
  | KeyError
  | UnicodeDecodeError
  | StructError
  | ZeroDivisionError
  | OverflowError
  | BinasciiError
  | DecodeError

text \<open>
  Sequencing of computations that can raise: the first error ends the computation.
\<close>

definition ebind :: "error + 'a \<Rightarrow> ('a \<Rightarrow> error + 'b) \<Rightarrow> error + 'b" where
  "ebind m f = (case m of Inl e \<Rightarrow> Inl e | Inr x \<Rightarrow> f x)"

lemma ebind_Inr [simp]: "ebind (Inr x) f = f x"
  by (simp add: ebind_def)

lemma ebind_Inl [simp]: "ebind (Inl e) f = Inl e"
  by (simp add: ebind_def)

lemma ebind_cong [fundef_cong]:
  "m = m' \<Longrightarrow> (\<And>x. m' = Inr x \<Longrightarrow> f x = f' x) \<Longrightarrow> ebind m f = ebind m' f'"
  by (cases m') (simp_all add: ebind_def)

section \<open>Varints (\<open>MajsoulCodec._encode_varint\<close>, \<open>MajsoulCodec._decode_varint\<close>)\<close>

text \<open>
  \<open>bytes(result)\<close> on a list of integers raises \<open>ValueError\<close> when an element
  is outside \<open>range(0, 256)\<close>.
\<close>

fun py_bytes :: "int list \<Rightarrow> error + byte list" where
  "py_bytes [] = Inr []"
| "py_bytes (x # xs) =
     (if 0 \<le> x \<and> x < 256
      then (case py_bytes xs of Inl e \<Rightarrow> Inl e | Inr bs \<Rightarrow> Inr (word_of_int x # bs))
      else Inl ValueError)"

text \<open>The \<open>while value > 127\<close> loop; \<open>result\<close> is the list built so far.\<close>

function encode_varint_loop :: "int \<Rightarrow> int list \<Rightarrow> int list" where
  "encode_varint_loop v result =
     (if v > 127
      then encode_varint_loop (drop_bit 7 v) (result @ [(v AND 0x7F) OR 0x80])
      else result @ [v])"
  by pat_completeness auto
termination
proof (relation "measure (\<lambda>(v, result). nat v)")
  show "wf (measure (\<lambda>(v, result). nat v))"
    by simp
next
  fix v :: int and result :: "int list"
  assume "127 < v"
  then have "v div 128 < v"
    by simp
  with \<open>127 < v\<close> show "((drop_bit 7 v, result @ [v AND 0x7F OR 0x80]), v, result)
      \<in> measure (\<lambda>(v, result). nat v)"
    by (simp add: drop_bit_eq_div)
qed

definition encode_varint :: "int \<Rightarrow> error + byte list" where
  "encode_varint v = py_bytes (encode_varint_loop v [])"

text \<open>
  The \<open>while True\<close> loop of \<open>_decode_varint\<close>: \<open>data[pos]\<close> raises
  \<open>IndexError\<close> past the end of the buffer, which is the only way the loop ends
  without a terminating byte.
\<close>

function decode_varint_loop :: "byte list \<Rightarrow> nat \<Rightarrow> int \<Rightarrow> nat \<Rightarrow> error + (int \<times> nat)" where
  "decode_varint_loop data pos result shift =
     (if pos < length data
      then (let b = data ! pos;
                result' = result OR push_bit shift (uint b AND 0x7F)
            in if b AND 0x80 = 0
               then Inr (result', pos + 1)
               else decode_varint_loop data (pos + 1) result' (shift + 7))
      else Inl IndexError)"
  by pat_completeness auto
termination
  by (relation "measure (\<lambda>(data, pos, result, shift). length data - pos)") auto

definition decode_varint :: "byte list \<Rightarrow> nat \<Rightarrow> error + (int \<times> nat)" where
  "decode_varint data pos = decode_varint_loop data pos 0 0"

section \<open>Record stream cipher (\<open>decode_record_data\<close>)\<close>

definition DECODE_KEYS :: "int list" where
  "DECODE_KEYS = [0x84, 0x5e, 0x4e, 0x42, 0x39, 0xa2, 0x1f, 0x60, 0x1c]"

text \<open>
  The key byte \<open>u\<close> of index \<open>i\<close> in a buffer of \<open>n\<close> bytes. In Python
  \<open>&\<close> binds weaker than \<open>+\<close>, so the mask applies to the whole sum.
\<close>

definition record_key :: "nat \<Rightarrow> nat \<Rightarrow> int" where
  "record_key n i =
     ((23 XOR int n) + 5 * int i + DECODE_KEYS ! (i mod length DECODE_KEYS)) AND 255"

text \<open>
  The \<open>for i in range(len(data))\<close> loop, updating the byte array in place. Every
  index it reads is in range, and the value it stores is the XOR of two values
  below 256.
\<close>

fun decode_record_loop :: "nat list \<Rightarrow> byte list \<Rightarrow> byte list" where
  "decode_record_loop [] data = data"
| "decode_record_loop (i # is) data =
     decode_record_loop is
       (data[i := word_of_int (uint (data ! i) XOR record_key (length data) i)])"

definition decode_record_data :: "byte list \<Rightarrow> byte list" where
  "decode_record_data data = decode_record_loop [0..<length data] data"

section \<open>Rates (\<open>stats_batch.calculate_rates\<close>)\<close>












section \<open>Matching players to seats (\<open>stats_batch.match_players_by_score\<close>)\<close>

text \<open>
  A CSV player, as \<open>load_csv_records\<close> builds it; \<open>score\<close> is the text of the
  CSV cell.
\<close>

record player =
  p_rank :: int
  p_account_id :: string
  p_nickname :: string
  p_score :: string

text \<open>
  \<open>best_diff\<close> starts as \<open>float('inf')\<close> and afterwards holds an integer.
\<close>

datatype bound = Infinite | Finite int

fun int_less_bound :: "int \<Rightarrow> bound \<Rightarrow> bool" where
  "int_less_bound d Infinite = True"
| "int_less_bound d (Finite b) = (d < b)"

fun bound_less_int :: "bound \<Rightarrow> int \<Rightarrow> bool" where
  "bound_less_int Infinite k = False"
| "bound_less_int (Finite b) k = (b < k)"

text \<open>
  The body of the first loop, for one player. The conversion \<open>int(float(s))\<close>
  of Python is the parameter \<open>int_float\<close>: it raises \<open>ValueError\<close> on text that
  is no number (and on nan) and \<open>OverflowError\<close> on an infinity. The loop
  catches \<open>ValueError\<close> and \<open>TypeError\<close> and uses the score 0; any other
  exception leaves the function.
\<close>

definition player_score :: "(string \<Rightarrow> error + int) \<Rightarrow> player \<Rightarrow> error + int" where
  "player_score int_float p =
     (case int_float (p_score p) of
        Inr n \<Rightarrow> Inr n
      | Inl ValueError \<Rightarrow> Inr 0
      | Inl TypeError \<Rightarrow> Inr 0
      | Inl e \<Rightarrow> Inl e)"

fun csv_scores_of ::
  "(string \<Rightarrow> error + int) \<Rightarrow> player list \<Rightarrow> error + (player \<times> int) list" where
  "csv_scores_of int_float [] = Inr []"
| "csv_scores_of int_float (p # ps) =
     ebind (player_score int_float p) (\<lambda>score.
     ebind (csv_scores_of int_float ps) (\<lambda>xs. Inr ((p, score) # xs)))"

text \<open>
  The inner loop over \<open>enumerate(csv_scores)\<close>, from index \<open>i\<close>; the state is
  \<open>(best_match, best_diff)\<close>.
\<close>

fun find_best ::
  "int \<Rightarrow> nat set \<Rightarrow> nat \<Rightarrow> (player \<times> int) list
     \<Rightarrow> (nat \<times> player) option \<times> bound \<Rightarrow> (nat \<times> player) option \<times> bound" where
  "find_best json_score used i [] best = best"
| "find_best json_score used i ((p, csv_score) # rest) (best_match, best_diff) =
     (if i \<in> used then find_best json_score used (i + 1) rest (best_match, best_diff)
      else (let diff = \<bar>json_score - csv_score\<bar>
            in if int_less_bound diff best_diff
               then find_best json_score used (i + 1) rest (Some (i, p), Finite diff)
               else find_best json_score used (i + 1) rest (best_match, best_diff)))"

text \<open>
  The outer loop over \<open>enumerate(final_scores)\<close>, from seat \<open>seat\<close>; the state is
  \<open>(seat_to_player, used_players)\<close>.
\<close>

fun match_loop ::
  "(player \<times> int) list \<Rightarrow> nat \<Rightarrow> int list
     \<Rightarrow> (nat \<rightharpoonup> player) \<times> nat set \<Rightarrow> (nat \<rightharpoonup> player) \<times> nat set" where
  "match_loop csv_scores seat [] st = st"
| "match_loop csv_scores seat (json_score # rest) (seat_to_player, used_players) =
     (case find_best json_score used_players 0 csv_scores (None, Infinite) of
        (Some (i, p), best_diff) \<Rightarrow>
          if bound_less_int best_diff 100
          then match_loop csv_scores (seat + 1) rest
                 (seat_to_player(seat \<mapsto> p), insert i used_players)
          else match_loop csv_scores (seat + 1) rest (seat_to_player, used_players)
      | (None, best_diff) \<Rightarrow>
          match_loop csv_scores (seat + 1) rest (seat_to_player, used_players))"

text \<open>
  \<open>final_scores\<close> is \<open>None\<close> when the record has no scores, and otherwise the
  list of integer scores of the record.
\<close>

definition match_players_by_score ::
  "(string \<Rightarrow> error + int) \<Rightarrow> player list \<Rightarrow> int list option \<Rightarrow> error + (nat \<rightharpoonup> player)" where
  "match_players_by_score int_float csv_players final_scores =
     (case final_scores of
        None \<Rightarrow> Inr Map.empty
      | Some scores \<Rightarrow>
          if scores = [] \<or> length scores \<noteq> 4 then Inr Map.empty
          else ebind (csv_scores_of int_float csv_players) (\<lambda>csv_scores.
                 Inr (fst (match_loop csv_scores 0 scores (Map.empty, {})))))"

text \<open>
  Two predicates used to reason about the loops. \<open>best_ok\<close> describes the state
  of the inner loop after the candidates below index \<open>n\<close>: the best match, if
  any, is an unused index of \<open>csv_scores\<close>, with its player and its distance to
  the seat's score. \<open>match_inv\<close> describes the state of the outer loop: every
  mapped seat has an index of its own among the used indices.
\<close>

definition best_ok ::
  "int \<Rightarrow> nat set \<Rightarrow> (player \<times> int) list \<Rightarrow> nat \<Rightarrow> (nat \<times> player) option \<times> bound \<Rightarrow> bool" where
  "best_ok js used cs n best =
     (case best of
        (None, bd) \<Rightarrow> bd = Infinite
      | (Some (j, q), bd) \<Rightarrow>
          j < n \<and> j \<notin> used \<and> j < length cs \<and> q = fst (cs ! j)
          \<and> bd = Finite \<bar>js - snd (cs ! j)\<bar>)"

definition match_inv ::
  "(player \<times> int) list \<Rightarrow> int list \<Rightarrow> (nat \<rightharpoonup> player) \<times> nat set \<Rightarrow> bool" where
  "match_inv cs fs st =
     (\<exists>idx. inj_on idx (dom (fst st)) \<and> idx ` dom (fst st) \<subseteq> snd st
        \<and> (\<forall>s \<in> dom (fst st). s < length fs \<and> idx s < length cs
               \<and> fst st s = Some (fst (cs ! idx s))
               \<and> \<bar>fs ! s - snd (cs ! idx s)\<bar> < 100))"

text \<open>Example input: four players, and a conversion that knows their four scores.\<close>

definition example_int_float :: "string \<Rightarrow> error + int" where
  "example_int_float s =
     (if s = ''35000'' then Inr 35000
      else if s = ''28000'' then Inr 28000
      else if s = ''22000'' then Inr 22000
      else if s = ''15000'' then Inr 15000
      else Inl ValueError)"

definition example_player :: "int \<Rightarrow> string \<Rightarrow> player" where
  "example_player r s = \<lparr> p_rank = r, p_account_id = ''1'', p_nickname = ''n'', p_score = s \<rparr>"

definition example_players :: "player list" where
  "example_players =
     [example_player 1 ''35000'', example_player 2 ''28000'',
      example_player 3 ''22000'', example_player 4 ''15000'']"

section \<open>Dynamic values and the schema registry (\<open>MajsoulCodec\<close>)\<close>

text \<open>
  The values a payload dictionary holds and a decoded message is made of. A
  Python \<open>str\<close> is represented by its UTF-8 encoding, one \<open>char\<close> per byte, so
  only text that can be encoded is represented. A dictionary is the list of its
  items in insertion order. Floats are left out.
\<close>

datatype pyval =
    VNone
  | VBool bool
  | VInt int
  | VStr string
  | VBytes "byte list"
  | VDict "(string \<times> pyval) list"
  | VList "pyval list"

type_synonym pydict = "(string \<times> pyval) list"

text \<open>\<open>result[key] = value\<close>: a present key keeps its place, a new key goes last.\<close>

fun dict_set :: "pydict \<Rightarrow> string \<Rightarrow> pyval \<Rightarrow> pydict" where
  "dict_set [] k v = [(k, v)]"
| "dict_set ((k', v') # rest) k v =
     (if k' = k then (k, v) # rest else (k', v') # dict_set rest k v)"

text \<open>
  One entry of the \<open>fields\<close> of a message type: \<open>f["id"]\<close>, \<open>f["type"]\<close> and
  \<open>f.get("rule")\<close>. A message type is the list of its fields in the order of
  the schema; a service maps method names to the names of their request and
  response types.
\<close>

record field_def =
  fd_id :: int
  fd_type :: string
  fd_rule :: "string option"

type_synonym type_def = "(string \<times> field_def) list"

record method_def =
  requestType :: string
  responseType :: string

type_synonym type_registry = "string \<rightharpoonup> type_def"

text \<open>
  \<open>self.types.get(type_name)\<close>, and when that finds nothing
  \<open>self.types.get(f"lq.{type_name}")\<close>.
\<close>

definition lookup_type :: "type_registry \<Rightarrow> string \<Rightarrow> type_def option" where
  "lookup_type types type_name =
     (case types type_name of
        Some type_def \<Rightarrow> Some type_def
      | None \<Rightarrow> types (''lq.'' @ type_name))"

text \<open>\<open>field_type in self.types or f"lq.{field_type}" in self.types\<close>\<close>

definition is_registered :: "type_registry \<Rightarrow> string \<Rightarrow> bool" where
  "is_registered types field_type =
     (types field_type \<noteq> None \<or> types (''lq.'' @ field_type) \<noteq> None)"

subsection \<open>Text and base64\<close>

definition utf8_encode :: "string \<Rightarrow> byte list" where
  "utf8_encode s = map (\<lambda>c. of_char c) s"

definition utf8_cont :: "byte \<Rightarrow> bool" where
  "utf8_cont b = (0x80 \<le> b \<and> b \<le> 0xBF)"

text \<open>
  The well-formed UTF-8 byte sequences: no overlong forms, no surrogates,
  nothing above U+10FFFF. \<open>bytes.decode("utf-8")\<close> raises on any other input.
\<close>

fun utf8_valid :: "byte list \<Rightarrow> bool" where
  "utf8_valid [] = True"
| "utf8_valid (b # bs) =
     (if b \<le> 0x7F then utf8_valid bs
      else if 0xC2 \<le> b \<and> b \<le> 0xDF then
        (case bs of c1 # r \<Rightarrow> utf8_cont c1 \<and> utf8_valid r | _ \<Rightarrow> False)
      else if 0xE0 \<le> b \<and> b \<le> 0xEF then
        (case bs of
           c1 # c2 # r \<Rightarrow>
             (if b = 0xE0 then 0xA0 \<le> c1 \<and> c1 \<le> 0xBF
              else if b = 0xED then 0x80 \<le> c1 \<and> c1 \<le> 0x9F
              else utf8_cont c1)
             \<and> utf8_cont c2 \<and> utf8_valid r
         | _ \<Rightarrow> False)
      else if 0xF0 \<le> b \<and> b \<le> 0xF4 then
        (case bs of
           c1 # c2 # c3 # r \<Rightarrow>
             (if b = 0xF0 then 0x90 \<le> c1 \<and> c1 \<le> 0xBF
              else if b = 0xF4 then 0x80 \<le> c1 \<and> c1 \<le> 0x8F
              else utf8_cont c1)
             \<and> utf8_cont c2 \<and> utf8_cont c3 \<and> utf8_valid r
         | _ \<Rightarrow> False)
      else False)"

definition utf8_decode :: "byte list \<Rightarrow> error + string" where
  "utf8_decode bs =
     (if utf8_valid bs then Inr (map (\<lambda>b. char_of (unat b)) bs)
      else Inl UnicodeDecodeError)"

definition b64_alphabet :: string where
  "b64_alphabet = ''ABCDEFGHIJKLMNOPQRSTUVWXYZabcdefghijklmnopqrstuvwxyz0123456789+/''"

definition b64_char :: "nat \<Rightarrow> char" where
  "b64_char n = b64_alphabet ! (n mod 64)"

text \<open>\<open>base64.b64encode(data).decode()\<close>: three bytes give four characters.\<close>

fun b64encode :: "byte list \<Rightarrow> string" where
  "b64encode (a # b # c # rest) =
     (let n = unat a * 65536 + unat b * 256 + unat c
      in [b64_char (n div 262144), b64_char (n div 4096), b64_char (n div 64), b64_char n]
         @ b64encode rest)"
| "b64encode [a, b] =
     (let n = unat a * 65536 + unat b * 256
      in [b64_char (n div 262144), b64_char (n div 4096), b64_char (n div 64), CHR ''=''])"
| "b64encode [a] =
     (let n = unat a * 65536
      in [b64_char (n div 262144), b64_char (n div 4096), CHR ''='', CHR ''=''])"
| "b64encode [] = []"

subsection \<open>Encoding (\<open>_encode_field\<close>, \<open>_encode_string\<close>, \<open>_encode_message\<close>,
  \<open>_encode_single_field\<close>)\<close>

definition encode_field :: "int \<Rightarrow> int \<Rightarrow> byte list \<Rightarrow> error + byte list" where
  "encode_field field_num wire_type v =
     ebind (encode_varint (push_bit 3 field_num OR wire_type)) (\<lambda>tag. Inr (tag @ v))"

definition encode_string :: "int \<Rightarrow> byte list \<Rightarrow> error + byte list" where
  "encode_string field_num v =
     ebind (encode_varint (int (length v))) (\<lambda>len. encode_field field_num 2 (len @ v))"

text \<open>
  \<open>int(value)\<close>. On text Python parses a decimal literal; that conversion is
  the parameter \<open>int_of_text\<close>, given the UTF-8 bytes of the text.
\<close>

definition py_int :: "(byte list \<Rightarrow> error + int) \<Rightarrow> pyval \<Rightarrow> error + int" where
  "py_int int_of_text v =
     (case v of
        VInt n \<Rightarrow> Inr n
      | VBool b \<Rightarrow> Inr (if b then 1 else 0)
      | VStr s \<Rightarrow> int_of_text (utf8_encode s)
      | VBytes bs \<Rightarrow> int_of_text bs
      | _ \<Rightarrow> Inl TypeError)"

text \<open>The truth value of \<open>value\<close> in \<open>1 if value else 0\<close>.\<close>

definition truthy :: "pyval \<Rightarrow> bool" where
  "truthy v =
     (case v of
        VNone \<Rightarrow> False
      | VBool b \<Rightarrow> b
      | VInt n \<Rightarrow> n \<noteq> 0
      | VStr s \<Rightarrow> s \<noteq> []
      | VBytes bs \<Rightarrow> bs \<noteq> []
      | VDict d \<Rightarrow> d \<noteq> []
      | VList l \<Rightarrow> l \<noteq> [])"

lemma size_map_of_pyval: "map_of d k = Some v \<Longrightarrow> size v < size (VDict d)"
  by (induction d) (auto split: if_splits)

text \<open>
  The four mutually recursive parts of the encoder: \<open>_encode_message\<close>; its loop
  over \<open>fields.items()\<close>, with the bytes built so far; \<open>_encode_single_field\<close>;
  and the loop over the items of a repeated field. A value that has no length,
  or that cannot be appended to bytes, makes \<open>_encode_string\<close> raise
  \<open>TypeError\<close>.
\<close>

function encode_message ::
    "(byte list \<Rightarrow> error + int) \<Rightarrow> type_registry \<Rightarrow> string \<Rightarrow> pydict \<Rightarrow> error + byte list"
  and encode_fields ::
    "(byte list \<Rightarrow> error + int) \<Rightarrow> type_registry \<Rightarrow> type_def \<Rightarrow> pydict \<Rightarrow> byte list
       \<Rightarrow> error + byte list"
  and encode_single_field ::
    "(byte list \<Rightarrow> error + int) \<Rightarrow> type_registry \<Rightarrow> int \<Rightarrow> string \<Rightarrow> pyval
       \<Rightarrow> error + byte list"
  and encode_items ::
    "(byte list \<Rightarrow> error + int) \<Rightarrow> type_registry \<Rightarrow> int \<Rightarrow> string \<Rightarrow> pyval list \<Rightarrow> byte list
       \<Rightarrow> error + byte list"
where
  "encode_message int_of_text types type_name data =
     (case lookup_type types type_name of
        None \<Rightarrow> Inl ValueError
      | Some field_defs \<Rightarrow> encode_fields int_of_text types field_defs data [])"
| "encode_fields int_of_text types [] data result = Inr result"
| "encode_fields int_of_text types ((field_name, field_def) # field_defs) data result =
     (case map_of data field_name of
        None \<Rightarrow> encode_fields int_of_text types field_defs data result
      | Some v \<Rightarrow>
          ebind (case v of
                   VList items \<Rightarrow>
                     if fd_rule field_def = Some ''repeated''
                     then encode_items int_of_text types (fd_id field_def) (fd_type field_def)
                            items result
                     else ebind (encode_single_field int_of_text types (fd_id field_def)
                                   (fd_type field_def) v)
                            (\<lambda>bs. Inr (result @ bs))
                 | _ \<Rightarrow>
                     ebind (encode_single_field int_of_text types (fd_id field_def)
                              (fd_type field_def) v)
                       (\<lambda>bs. Inr (result @ bs)))
            (\<lambda>result'. encode_fields int_of_text types field_defs data result'))"
| "encode_single_field int_of_text types field_id field_type v =
     (if v = VNone then Inr []
      else if field_type = ''string'' then
        (case v of
           VStr s \<Rightarrow> encode_string field_id (utf8_encode s)
         | VBytes bs \<Rightarrow> encode_string field_id bs
         | _ \<Rightarrow> Inl TypeError)
      else if field_type = ''bytes'' then
        (case v of
           VBytes bs \<Rightarrow> encode_string field_id bs
         | _ \<Rightarrow> Inl TypeError)
      else if field_type \<in> {''int32'', ''int64'', ''uint32'', ''uint64''} then
        ebind (py_int int_of_text v) (\<lambda>n.
        ebind (encode_varint n) (\<lambda>bs. encode_field field_id 0 bs))
      else if field_type = ''bool'' then
        ebind (encode_varint (if truthy v then 1 else 0)) (\<lambda>bs. encode_field field_id 0 bs)
      else if is_registered types field_type then
        (case v of
           VDict d \<Rightarrow>
             ebind (encode_message int_of_text types field_type d) (\<lambda>nested_bytes.
               encode_string field_id nested_bytes)
         | _ \<Rightarrow> Inr [])
      else Inr [])"
| "encode_items int_of_text types field_id field_type [] result = Inr result"
| "encode_items int_of_text types field_id field_type (item # items) result =
     ebind (encode_single_field int_of_text types field_id field_type item) (\<lambda>bs.
       encode_items int_of_text types field_id field_type items (result @ bs))"
  by pat_completeness auto
termination
  by (relation "measures
        [\<lambda>x. case x of
           Inl (Inl (f, t, n, d)) \<Rightarrow> size (VDict d)
         | Inl (Inr (f, t, fs, d, r)) \<Rightarrow> size (VDict d)
         | Inr (Inl (f, t, i, ft, v)) \<Rightarrow> size v
         | Inr (Inr (f, t, i, ft, vs, r)) \<Rightarrow> size (VList vs),
         \<lambda>x. case x of
           Inl (Inl (f, t, n, d)) \<Rightarrow> 1
         | Inl (Inr (f, t, fs, d, r)) \<Rightarrow> 0
         | Inr (Inl (f, t, i, ft, v)) \<Rightarrow> 2
         | Inr (Inr (f, t, i, ft, vs, r)) \<Rightarrow> 0,
         \<lambda>x. case x of
           Inl (Inr (f, t, fs, d, r)) \<Rightarrow> length fs
         | _ \<Rightarrow> 0]")
     (auto dest: size_map_of_pyval)

declare encode_message.simps [simp del]

subsection \<open>Decoding (\<open>_decode_message\<close>)\<close>

text \<open>
  \<open>field_by_id\<close>: the dictionary comprehension over \<open>fields.items()\<close>; of two
  fields with one id the later one stays.
\<close>

definition field_by_id :: "type_def \<Rightarrow> (int \<rightharpoonup> string \<times> field_def)" where
  "field_by_id field_defs = map_of (rev (map (\<lambda>(name, f). (fd_id f, (name, f))) field_defs))"

lemma decode_varint_loop_pos:
  "decode_varint_loop data pos result shift = Inr (v, p) \<Longrightarrow> pos < p \<and> p \<le> length data"
proof (induction data pos result shift rule: decode_varint_loop.induct)
  case (1 data pos result shift)
  show ?case
  proof (cases "pos < length data")
    case False
    with "1.prems" show ?thesis by simp
  next
    case True
    show ?thesis
    proof (cases "data ! pos AND 0x80 = 0")
      case stop: True
      with True "1.prems" show ?thesis by (auto simp: Let_def)
    next
      case more: False
      with True "1.prems" have
        "decode_varint_loop data (pos + 1) (result OR push_bit shift (uint (data ! pos) AND 0x7F))
           (shift + 7) = Inr (v, p)"
        by (simp add: Let_def)
      with "1.IH" [OF True refl refl more] show ?thesis by simp
    qed
  qed
qed

lemma decode_varint_pos:
  "decode_varint data pos = Inr (v, p) \<Longrightarrow> pos < p \<and> p \<le> length data"
  unfolding decode_varint_def by (rule decode_varint_loop_pos)

text \<open>
  \<open>_decode_message\<close> and its \<open>while pos < len(data)\<close> loop, whose state is
  \<open>pos\<close> and \<open>result\<close>. A slice \<open>data[pos:pos + length]\<close> that reaches past the
  end of the buffer is cut at the end, and does not raise. A record of a wire
  type other than 0 and 2 has only its tag consumed.
\<close>

function decode_message :: "type_registry \<Rightarrow> string \<Rightarrow> byte list \<Rightarrow> error + pydict"
  and decode_loop ::
    "type_registry \<Rightarrow> (int \<rightharpoonup> string \<times> field_def) \<Rightarrow> byte list \<Rightarrow> nat \<Rightarrow> pydict
       \<Rightarrow> error + pydict"
where
  "decode_message types type_name data =
     (case lookup_type types type_name of
        None \<Rightarrow> Inr [(''_raw'', VStr (b64encode data))]
      | Some field_defs \<Rightarrow> decode_loop types (field_by_id field_defs) data 0 [])"
| "decode_loop types by_id data pos result =
     (if pos < length data then
        ebind (decode_varint data pos) (\<lambda>(tag, pos1).
          let field_id = drop_bit 3 tag; wire_type = tag AND 0x7 in
          case by_id field_id of
            None \<Rightarrow>
              if wire_type = 0 then
                ebind (decode_varint data pos1) (\<lambda>(skipped, pos2).
                  decode_loop types by_id data pos2 result)
              else if wire_type = 2 then
                ebind (decode_varint data pos1) (\<lambda>(len, pos2).
                  decode_loop types by_id data (pos2 + nat len) result)
              else decode_loop types by_id data pos1 result
          | Some (field_name, field_def) \<Rightarrow>
              if wire_type = 0 then
                ebind (decode_varint data pos1) (\<lambda>(v, pos2).
                  decode_loop types by_id data pos2
                    (dict_set result field_name
                       (if fd_type field_def = ''bool'' then VBool (v \<noteq> 0) else VInt v)))
              else if wire_type = 2 then
                ebind (decode_varint data pos1) (\<lambda>(len, pos2).
                  let v = take (nat len) (drop pos2 data); pos3 = pos2 + nat len in
                  if fd_type field_def = ''string'' then
                    ebind (utf8_decode v) (\<lambda>s.
                      decode_loop types by_id data pos3 (dict_set result field_name (VStr s)))
                  else if fd_type field_def = ''bytes'' then
                    decode_loop types by_id data pos3
                      (dict_set result field_name (VStr (b64encode v)))
                  else if is_registered types (fd_type field_def) then
                    ebind (decode_message types (fd_type field_def) v) (\<lambda>d.
                      decode_loop types by_id data pos3 (dict_set result field_name (VDict d)))
                  else
                    decode_loop types by_id data pos3
                      (dict_set result field_name (VStr (b64encode v))))
              else decode_loop types by_id data pos1 result)
      else Inr result)"
  by pat_completeness auto
termination
  by (relation "measures
        [\<lambda>x. case x of
           Inl (t, n, data) \<Rightarrow> length data
         | Inr (t, b, data, pos, r) \<Rightarrow> length data,
         \<lambda>x. case x of
           Inl (t, n, data) \<Rightarrow> length data + 1
         | Inr (t, b, data, pos, r) \<Rightarrow> length data - pos]")
     (auto dest!: decode_varint_pos)

declare decode_message.simps [simp del] decode_loop.simps [simp del]

subsection \<open>Requests (\<open>MajsoulCodec.encode_request\<close>)\<close>

text \<open>
  The state of a codec: the two registries, the counter \<open>msg_index\<close> (0 in a
  new codec) and the table of the requests that wait for their response.
\<close>

record codec =
  types :: type_registry
  services :: "string \<rightharpoonup> (string \<rightharpoonup> method_def)"
  msg_index :: int
  pending_requests :: "int \<rightharpoonup> string \<times> string"

text \<open>\<open>s.split(sep)\<close>, with the piece read so far; and \<open>".".join(parts)\<close>.\<close>

fun split_on :: "char \<Rightarrow> string \<Rightarrow> string \<Rightarrow> string list" where
  "split_on sep piece [] = [piece]"
| "split_on sep piece (c # cs) =
     (if c = sep then piece # split_on sep [] cs else split_on sep (piece @ [c]) cs)"

fun join_dot :: "string list \<Rightarrow> string" where
  "join_dot [] = []"
| "join_dot [x] = x"
| "join_dot (x # y # ys) = x @ ''.'' @ join_dot (y # ys)"

text \<open>
  \<open>struct.pack("<H", n)\<close>: two bytes, low byte first; \<open>struct.error\<close> when \<open>n\<close>
  is not in the range of an unsigned 16-bit integer.
\<close>

definition struct_pack_H :: "int \<Rightarrow> error + byte list" where
  "struct_pack_H n =
     (if 0 \<le> n \<and> n \<le> 65535 then Inr [word_of_int (n mod 256), word_of_int (n div 256)]
      else Inl StructError)"

text \<open>
  \<open>encode_request\<close> returns the frame or raises, and in both cases leaves the
  codec changed: the counter is incremented first, and the pending entry is
  stored before the payload is encoded. The frame starts with
  \<open>MsgType.REQUEST\<close>, which is 2.
\<close>

definition encode_request ::
  "(byte list \<Rightarrow> error + int) \<Rightarrow> codec \<Rightarrow> string \<Rightarrow> pydict \<Rightarrow> (error + byte list) \<times> codec" where
  "encode_request int_of_text c method_name payload =
     (let msg_id = msg_index c + 1;
          c1 = c\<lparr>msg_index := msg_id\<rparr>;
          parts = split_on CHR ''.'' [] (dropWhile (\<lambda>ch. ch = CHR ''.'') method_name)
      in if length parts \<ge> 3 then
           (let service_name = join_dot (butlast parts);
                method = last parts
            in case services c1 service_name of
                 None \<Rightarrow> (Inl ValueError, c1)
               | Some service \<Rightarrow>
                   (case service method of
                      None \<Rightarrow> (Inl ValueError, c1)
                    | Some method_def \<Rightarrow>
                        (let c2 = c1\<lparr>pending_requests :=
                                      (pending_requests c1)
                                        (msg_id \<mapsto> (method_name, responseType method_def))\<rparr>
                         in (ebind (encode_message int_of_text (types c2)
                                      (requestType method_def) payload) (\<lambda>request_data.
                             ebind (encode_string 1 (utf8_encode method_name)) (\<lambda>w1.
                             ebind (encode_string 2 request_data) (\<lambda>w2.
                             ebind (struct_pack_H msg_id) (\<lambda>id_bytes.
                               Inr ([2] @ id_bytes @ (w1 @ w2)))))), c2))))
         else (Inl ValueError, c1))"

text \<open>
  Example schema: the message \<open>Foo\<close> with the one field \<open>bar\<close>, of id 1 and
  type string.
\<close>

definition foo_types :: type_registry where
  "foo_types = [''Foo'' \<mapsto> [(''bar'', \<lparr>fd_id = 1, fd_type = ''string'', fd_rule = None\<rparr>)]]"

text \<open>
  \<open>MajsoulCodec.__init__\<close>, with the two registries that \<open>_parse_proto_def\<close>
  builds given: the counter starts at 0 and nothing is pending.
\<close>

definition new_codec :: "type_registry \<Rightarrow> (string \<rightharpoonup> (string \<rightharpoonup> method_def)) \<Rightarrow> codec" where
  "new_codec tys svcs =
     \<lparr> types = tys, services = svcs, msg_index = 0, pending_requests = Map.empty \<rparr>"

text \<open>
  Example session: a codec that knows the heartbeat method of the lobby service,
  and the state of a codec after one more heartbeat request.
\<close>

definition lobby_codec :: codec where
  "lobby_codec =
     new_codec
       [''lq.ReqHeatBeat'' \<mapsto>
          [(''no_operation_counter'', \<lparr>fd_id = 1, fd_type = ''uint32'', fd_rule = None\<rparr>)]]
       [''lq.Lobby'' \<mapsto>
          [''heatbeat'' \<mapsto> \<lparr>requestType = ''ReqHeatBeat'', responseType = ''ResCommon''\<rparr>]]"

definition no_int_of_text :: "byte list \<Rightarrow> error + int" where
  "no_int_of_text bs = Inl ValueError"

definition after_heartbeat :: "codec \<Rightarrow> codec" where
  "after_heartbeat c =
     snd (encode_request no_int_of_text c ''.lq.Lobby.heatbeat''
            [(''no_operation_counter'', VInt 0)])"

section \<open>Connecting with failover (\<open>MajsoulClient.connect\<close>)\<close>

text \<open>
  The network is a parameter of the model. \<open>probe\<close> is the outcome of the
  maintenance probe of a host: the request or the reading of its answer raised,
  or the answer was read and its \<open>maintenance\<close> entry was true or not.
  \<open>ws_connect\<close> is the outcome of \<open>websockets.connect\<close> on the gateway of a host:
  an exception or an open socket.
\<close>

datatype probe_result = ProbeFailed | ProbeAnswer bool

text \<open>
  The two exceptions \<open>connect\<close> raises itself: "No servers available", and
  "Failed to connect to any server" with \<open>last_error\<close>, which is \<open>None\<close> when no
  connection was attempted.
\<close>

datatype 'e connect_error = NoServersAvailable | FailedToConnectToAny "'e option"

text \<open>The lines \<open>connect\<close> prints.\<close>

datatype 'e log_line =
    UnderMaintenance string
  | Connecting string
  | Connected
  | FailedToConnect string 'e

text \<open>
  The \<open>for server in servers\<close> loop; its state is \<open>last_error\<close> and the lines
  printed so far. The inner \<open>try\<close> swallows a failed probe; a host under
  maintenance is skipped without a connection attempt.
\<close>

fun connect_loop ::
  "(string \<Rightarrow> probe_result) \<Rightarrow> (string \<Rightarrow> 'e + 'w) \<Rightarrow> string list \<Rightarrow> 'e option
     \<Rightarrow> 'e log_line list \<Rightarrow> ('e connect_error + 'w) \<times> 'e log_line list" where
  "connect_loop probe ws_connect [] last_error printed =
     (Inl (FailedToConnectToAny last_error), printed)"
| "connect_loop probe ws_connect (server # rest) last_error printed =
     (if probe server = ProbeAnswer True
      then connect_loop probe ws_connect rest last_error (printed @ [UnderMaintenance server])
      else (case ws_connect server of
              Inr ws \<Rightarrow> (Inr ws, printed @ [Connecting server, Connected])
            | Inl e \<Rightarrow>
                connect_loop probe ws_connect rest (Some e)
                  (printed @ [Connecting server, FailedToConnect server e])))"

text \<open>
  \<open>connect\<close>, given the list that \<open>_get_server_list\<close> returned: the socket that
  \<open>self.ws\<close> is set to, or the exception raised, and the lines printed.
\<close>

definition connect ::
  "(string \<Rightarrow> probe_result) \<Rightarrow> (string \<Rightarrow> 'e + 'w) \<Rightarrow> string list
     \<Rightarrow> ('e connect_error + 'w) \<times> 'e log_line list" where
  "connect probe ws_connect servers =
     (if servers = [] then (Inl NoServersAvailable, [])
      else connect_loop probe ws_connect servers None [])"

text \<open>
  What a host that does not end the loop adds to the printed lines, and the
  error it leaves in \<open>last_error\<close>.
\<close>

definition failed_lines ::
  "(string \<Rightarrow> probe_result) \<Rightarrow> (string \<Rightarrow> 'e + 'w) \<Rightarrow> string \<Rightarrow> 'e log_line list" where
  "failed_lines probe ws_connect server =
     (if probe server = ProbeAnswer True then [UnderMaintenance server]
      else (case ws_connect server of
              Inl e \<Rightarrow> [Connecting server, FailedToConnect server e]
            | Inr ws \<Rightarrow> []))"

fun last_failure ::
  "(string \<Rightarrow> probe_result) \<Rightarrow> (string \<Rightarrow> 'e + 'w) \<Rightarrow> 'e option \<Rightarrow> string list \<Rightarrow> 'e option" where
  "last_failure probe ws_connect last_error [] = last_error"
| "last_failure probe ws_connect last_error (server # rest) =
     last_failure probe ws_connect
       (if probe server = ProbeAnswer True then last_error
        else (case ws_connect server of Inl e \<Rightarrow> Some e | Inr ws \<Rightarrow> last_error))
       rest"

text \<open>
  A host accepts when it is not reported under maintenance and its gateway
  opens a socket.
\<close>

definition accepts :: "(string \<Rightarrow> probe_result) \<Rightarrow> (string \<Rightarrow> 'e + 'w) \<Rightarrow> string \<Rightarrow> bool" where
  "accepts probe ws_connect server =
     (probe server \<noteq> ProbeAnswer True \<and> (\<exists>ws. ws_connect server = Inr ws))"

text \<open>Example network: the gateway of host A refuses, that of host B accepts; every probe fails.\<close>

definition example_ws_connect :: "string \<Rightarrow> string + nat" where
  "example_ws_connect server = (if server = ''B'' then Inr 7 else Inl ''refused'')"

definition example_probe :: "string \<Rightarrow> probe_result" where
  "example_probe server = ProbeFailed"

section \<open>Decoding a fetched record (\<open>parse_game_record\<close>)\<close>



















subsection \<open>An environment that reads the wire format\<close>


























section \<open>Properties\<close>

subsection \<open>Varint round trip\<close>

text \<open>
  Claim C2. For each of the values 0, 1, 127, 128, 16383, 16384, 2^31 - 1 and
  2^32 - 1, encoding the value as a varint succeeds, and decoding the encoded bytes
  from position 0 gives the value back together with a final position equal to
  the number of encoded bytes.
\<close>

theorem varint_roundtrip_values:
  "encode_varint 0 = Inr [0x00] \<and> decode_varint [0x00] 0 = Inr (0, 1)
   \<and> encode_varint 1 = Inr [0x01] \<and> decode_varint [0x01] 0 = Inr (1, 1)
   \<and> encode_varint 127 = Inr [0x7F] \<and> decode_varint [0x7F] 0 = Inr (127, 1)
   \<and> encode_varint 128 = Inr [0x80, 0x01] \<and> decode_varint [0x80, 0x01] 0 = Inr (128, 2)
   \<and> encode_varint 16383 = Inr [0xFF, 0x7F] \<and> decode_varint [0xFF, 0x7F] 0 = Inr (16383, 2)
   \<and> encode_varint 16384 = Inr [0x80, 0x80, 0x01]
   \<and> decode_varint [0x80, 0x80, 0x01] 0 = Inr (16384, 3)
   \<and> encode_varint (2 ^ 31 - 1) = Inr [0xFF, 0xFF, 0xFF, 0xFF, 0x07]
   \<and> decode_varint [0xFF, 0xFF, 0xFF, 0xFF, 0x07] 0 = Inr (2 ^ 31 - 1, 5)
   \<and> encode_varint (2 ^ 32 - 1) = Inr [0xFF, 0xFF, 0xFF, 0xFF, 0x0F]
   \<and> decode_varint [0xFF, 0xFF, 0xFF, 0xFF, 0x0F] 0 = Inr (2 ^ 32 - 1, 5)"
  by (simp add: encode_varint_def decode_varint_def)

subsection \<open>The record cipher is an involution\<close>

lemma xor_byte_twice:
  "word_of_int (uint (word_of_int (uint b XOR k) :: byte) XOR k) = (b :: byte)"
proof -
  have "(word_of_int (uint b XOR k) :: byte) = b XOR word_of_int k"
    by (simp add: of_int_xor_eq)
  moreover have "(word_of_int (uint (b XOR word_of_int k) XOR k) :: byte)
      = (b XOR word_of_int k) XOR word_of_int k"
    by (simp add: of_int_xor_eq)
  ultimately show ?thesis by (simp add: xor.assoc)
qed

lemma length_decode_record_loop [simp]:
  "length (decode_record_loop is data) = length data"
  by (induction "is" arbitrary: data) simp_all

lemma nth_decode_record_loop:
  "distinct is \<Longrightarrow> \<forall>i \<in> set is. i < length data \<Longrightarrow> j < length data \<Longrightarrow>
   decode_record_loop is data ! j =
     (if j \<in> set is then word_of_int (uint (data ! j) XOR record_key (length data) j)
      else data ! j)"
proof (induction "is" arbitrary: data)
  case Nil
  then show ?case by simp
next
  case (Cons i "is")
  let ?d = "data[i := word_of_int (uint (data ! i) XOR record_key (length data) i)]"
  have "decode_record_loop (i # is) data ! j = decode_record_loop is ?d ! j" by simp
  also have "\<dots> =
      (if j \<in> set is then word_of_int (uint (?d ! j) XOR record_key (length ?d) j) else ?d ! j)"
    using Cons.prems by (intro Cons.IH) simp_all
  finally show ?case using Cons.prems by (auto simp: nth_list_update)
qed

lemma nth_decode_record_data:
  "j < length data \<Longrightarrow>
   decode_record_data data ! j = word_of_int (uint (data ! j) XOR record_key (length data) j)"
  by (simp add: decode_record_data_def nth_decode_record_loop)

lemma length_decode_record_data [simp]: "length (decode_record_data data) = length data"
  by (simp add: decode_record_data_def)

lemma and_255_mod: "x AND 255 = x mod (256::int)"
proof -
  have "(255::int) = mask 8" by (simp add: mask_eq_exp_minus_1)
  then have "x AND 255 = take_bit 8 x" by (simp add: take_bit_eq_mask)
  then show ?thesis by (simp add: take_bit_eq_mod)
qed

lemma decode_record_data_map:
  "decode_record_data data =
     map (\<lambda>j. data ! j XOR word_of_int (record_key (length data) j)) [0..<length data]"
  by (rule nth_equalityI) (simp_all add: nth_decode_record_data of_int_xor_eq)

text \<open>
  Claim C3. The key byte of index \<open>i\<close> in a buffer of \<open>n\<close> bytes is
  \<open>((23 XOR n) + 5 i + TABLE[i mod 9]) mod 256\<close>; \<open>decode_record_data\<close> XORs
  every byte with its key byte; and applying \<open>decode_record_data\<close> twice gives
  the original buffer back, for every buffer.
\<close>

theorem decode_record_data_involution:
  "record_key n i =
     ((23 XOR int n) + 5 * int i
        + [0x84, 0x5e, 0x4e, 0x42, 0x39, 0xa2, 0x1f, 0x60, 0x1c] ! (i mod 9)) mod 256
   \<and> decode_record_data data =
     map (\<lambda>j. data ! j XOR word_of_int (record_key (length data) j)) [0..<length data]
   \<and> decode_record_data (decode_record_data data) = data"
proof -
  have "record_key n i =
     ((23 XOR int n) + 5 * int i
        + [0x84, 0x5e, 0x4e, 0x42, 0x39, 0xa2, 0x1f, 0x60, 0x1c] ! (i mod 9)) mod 256"
    unfolding record_key_def DECODE_KEYS_def and_255_mod by simp
  moreover have "decode_record_data (decode_record_data data) = data"
    by (rule nth_equalityI) (simp_all add: nth_decode_record_data xor_byte_twice)
  ultimately show ?thesis using decode_record_data_map by blast
qed

subsection \<open>\<open>calculate_rates\<close> never divides by zero\<close>













subsection \<open>The matching of players to seats\<close>

lemma find_best_ok:
  "best_ok js used cs i best \<Longrightarrow> rest = drop i cs \<Longrightarrow>
   best_ok js used cs (length cs) (find_best js used i rest best)"
proof (induction rest arbitrary: i best)
  case Nil
  then show ?case by (auto simp: best_ok_def split: option.splits prod.splits)
next
  case (Cons a rest)
  obtain p c where a: "a = (p, c)" by (cases a)
  obtain bm bd where b: "best = (bm, bd)" by (cases best)
  have d: "drop i cs = a # rest" using Cons.prems(2) by simp
  then have i1: "i < length cs" by (cases "i < length cs") simp_all
  have i2: "cs ! i = a" using d by (rule nth_via_drop)
  have "drop (Suc i) cs = tl (drop i cs)" by (simp add: drop_Suc tl_drop)
  then have i3: "rest = drop (Suc i) cs" using d by simp
  have old: "best_ok js used cs (Suc i) (bm, bd)"
    using Cons.prems(1) b by (auto simp: best_ok_def split: option.splits)
  show ?case
  proof (cases "i \<in> used")
    case True
    then show ?thesis using Cons.IH [OF old i3] a b by simp
  next
    case False
    have new: "best_ok js used cs (Suc i) (Some (i, p), Finite \<bar>js - c\<bar>)"
      using False a i1 i2 by (simp add: best_ok_def)
    show ?thesis
      using Cons.IH [OF old i3] Cons.IH [OF new i3] a b False by (simp add: Let_def)
  qed
qed

lemma find_best_start:
  "best_ok js used cs (length cs) (find_best js used 0 cs (None, Infinite))"
  by (rule find_best_ok) (simp_all add: best_ok_def)

lemma match_inv_step:
  assumes inv: "match_inv cs fs (m, used)"
    and dom: "dom m \<subseteq> {..<seat}"
    and seat: "seat < length fs"
    and best: "best_ok (fs ! seat) used cs (length cs) (Some (i, p), Finite d)"
    and d: "d < 100"
  shows "match_inv cs fs (m(seat \<mapsto> p), insert i used)"
proof -
  from inv obtain idx where idx: "inj_on idx (dom m)" "idx ` dom m \<subseteq> used"
    and all: "\<forall>s \<in> dom m. s < length fs \<and> idx s < length cs
               \<and> m s = Some (fst (cs ! idx s)) \<and> \<bar>fs ! s - snd (cs ! idx s)\<bar> < 100"
    by (auto simp: match_inv_def)
  from best have b: "i \<notin> used" "i < length cs" "p = fst (cs ! i)" "d = \<bar>fs ! seat - snd (cs ! i)\<bar>"
    by (simp_all add: best_ok_def)
  have fresh: "seat \<notin> dom m" using dom by auto
  let ?idx = "idx(seat := i)"
  have "inj_on ?idx (insert seat (dom m))"
  proof (rule inj_onI)
    fix x y assume xy: "x \<in> insert seat (dom m)" "y \<in> insert seat (dom m)" "?idx x = ?idx y"
    show "x = y"
    proof (cases "x = seat"; cases "y = seat")
      assume "x \<noteq> seat" "y \<noteq> seat"
      then show ?thesis using xy idx(1) by (auto dest: inj_onD)
    next
      assume "x = seat" "y \<noteq> seat"
      then have "idx y = i" "y \<in> dom m" using xy by auto
      then have "i \<in> used" using idx(2) by auto
      then show ?thesis using b(1) by simp
    next
      assume "x \<noteq> seat" "y = seat"
      then have "idx x = i" "x \<in> dom m" using xy by auto
      then have "i \<in> used" using idx(2) by auto
      then show ?thesis using b(1) by simp
    qed simp
  qed
  moreover have "?idx ` insert seat (dom m) \<subseteq> insert i used"
    using idx(2) fresh by auto
  moreover have "\<forall>s \<in> insert seat (dom m). s < length fs \<and> ?idx s < length cs
               \<and> (m(seat \<mapsto> p)) s = Some (fst (cs ! ?idx s))
               \<and> \<bar>fs ! s - snd (cs ! ?idx s)\<bar> < 100"
    using all b d seat fresh by auto
  moreover have "dom (m(seat \<mapsto> p)) = insert seat (dom m)"
    by simp
  ultimately show ?thesis
    unfolding match_inv_def fst_conv snd_conv by metis
qed

lemma match_loop_inv:
  "match_inv cs fs (m, used) \<Longrightarrow> dom m \<subseteq> {..<seat} \<Longrightarrow> rest = drop seat fs \<Longrightarrow>
   match_inv cs fs (match_loop cs seat rest (m, used))"
proof (induction rest arbitrary: seat m used)
  case Nil
  then show ?case by simp
next
  case (Cons js rest)
  have d: "drop seat fs = js # rest" using Cons.prems(3) by simp
  then have s1: "seat < length fs" by (cases "seat < length fs") simp_all
  have s2: "fs ! seat = js" using d by (rule nth_via_drop)
  have "drop (Suc seat) fs = tl (drop seat fs)" by (simp add: drop_Suc tl_drop)
  then have s3: "rest = drop (Suc seat) fs" using d by simp
  have keep: "match_inv cs fs (match_loop cs (Suc seat) rest (m, used))"
    using Cons.prems(1,2) s3 by (intro Cons.IH) auto
  obtain bm bd where r: "find_best js used 0 cs (None, Infinite) = (bm, bd)"
    by (cases "find_best js used 0 cs (None, Infinite)")
  have ok: "best_ok js used cs (length cs) (bm, bd)"
    using find_best_start [of js used cs] r by simp
  show ?case
  proof (cases bm)
    case None
    then show ?thesis using r keep by simp
  next
    case (Some ip)
    obtain i p where ip: "ip = (i, p)" by (cases ip)
    from ok Some ip obtain d where bd: "bd = Finite d"
      by (auto simp: best_ok_def)
    show ?thesis
    proof (cases "d < 100")
      case True
      have "match_inv cs fs (m(seat \<mapsto> p), insert i used)"
        using Cons.prems(1,2) s1 ok True unfolding Some ip bd s2 [symmetric]
        by (rule match_inv_step)
      moreover have "dom (m(seat \<mapsto> p)) \<subseteq> {..<Suc seat}"
        using Cons.prems(2) by auto
      ultimately have "match_inv cs fs (match_loop cs (Suc seat) rest (m(seat \<mapsto> p), insert i used))"
        using s3 by (intro Cons.IH)
      then show ?thesis using r Some ip bd True by simp
    next
      case False
      then show ?thesis using r Some ip bd keep by simp
    qed
  qed
qed

lemma csv_scores_of_nth:
  "csv_scores_of f ps = Inr cs \<Longrightarrow>
   length cs = length ps \<and> (\<forall>i < length ps. fst (cs ! i) = ps ! i \<and> player_score f (ps ! i) = Inr (snd (cs ! i)))"
proof (induction ps arbitrary: cs)
  case Nil
  then show ?case by simp
next
  case (Cons p ps)
  from Cons.prems obtain c cs' where c: "player_score f p = Inr c" "csv_scores_of f ps = Inr cs'" "cs = (p, c) # cs'"
    by (auto simp: ebind_def split: sum.splits)
  from Cons.IH [OF c(2)] c show ?case
    by (auto simp: nth_Cons split: nat.splits)
qed

text \<open>
  Claim C10. \<open>match_players_by_score\<close> returns the empty mapping when
  \<open>final_scores\<close> is missing or its length is not 4. Otherwise, when it
  returns a mapping, every mapped seat is below 4 and has a CSV player index of
  its own (no index serves two seats); the seat is mapped to the player of that
  index, and the absolute difference between the seat's final score and that
  player's CSV score is below 100.
\<close>

theorem match_players_by_score_injective:
  "(final_scores = None \<or> (\<exists>scores. final_scores = Some scores \<and> length scores \<noteq> 4)
      \<longrightarrow> match_players_by_score f ps final_scores = Inr Map.empty)
   \<and> (length scores = 4 \<and> match_players_by_score f ps (Some scores) = Inr m
      \<longrightarrow> (\<exists>idx. inj_on idx (dom m)
             \<and> (\<forall>seat \<in> dom m. seat < 4 \<and> idx seat < length ps
                   \<and> m seat = Some (ps ! idx seat)
                   \<and> (\<exists>c. player_score f (ps ! idx seat) = Inr c
                          \<and> \<bar>scores ! seat - c\<bar> < 100))))"
proof (intro conjI impI)
  assume "final_scores = None \<or> (\<exists>scores. final_scores = Some scores \<and> length scores \<noteq> 4)"
  then show "match_players_by_score f ps final_scores = Inr Map.empty"
    by (auto simp: match_players_by_score_def)
next
  assume a: "length scores = 4 \<and> match_players_by_score f ps (Some scores) = Inr m"
  then have ne: "scores \<noteq> []" by auto
  from a ne obtain cs where cs: "csv_scores_of f ps = Inr cs"
    and m: "m = fst (match_loop cs 0 scores (Map.empty, {}))"
    by (auto simp: match_players_by_score_def ebind_def split: sum.splits)
  have "match_inv cs scores (Map.empty, {})" by (simp add: match_inv_def)
  then have "match_inv cs scores (match_loop cs 0 scores (Map.empty, {}))"
    by (rule match_loop_inv) simp_all
  then obtain idx where idx: "inj_on idx (dom m)"
    and all: "\<forall>s \<in> dom m. s < length scores \<and> idx s < length cs
               \<and> m s = Some (fst (cs ! idx s)) \<and> \<bar>scores ! s - snd (cs ! idx s)\<bar> < 100"
    unfolding match_inv_def m by auto
  note n = csv_scores_of_nth [OF cs]
  have "\<forall>seat \<in> dom m. seat < 4 \<and> idx seat < length ps
                   \<and> m seat = Some (ps ! idx seat)
                   \<and> (\<exists>c. player_score f (ps ! idx seat) = Inr c
                          \<and> \<bar>scores ! seat - c\<bar> < 100)"
  proof
    fix seat assume s: "seat \<in> dom m"
    with all have 1: "seat < length scores" "idx seat < length cs"
      "m seat = Some (fst (cs ! idx seat))" "\<bar>scores ! seat - snd (cs ! idx seat)\<bar> < 100"
      by auto
    from n 1(2) have 2: "idx seat < length ps" "fst (cs ! idx seat) = ps ! idx seat"
      "player_score f (ps ! idx seat) = Inr (snd (cs ! idx seat))"
      by auto
    show "seat < 4 \<and> idx seat < length ps
                   \<and> m seat = Some (ps ! idx seat)
                   \<and> (\<exists>c. player_score f (ps ! idx seat) = Inr c
                          \<and> \<bar>scores ! seat - c\<bar> < 100)"
      using 1 2 a by auto
  qed
  with idx show "\<exists>idx. inj_on idx (dom m)
             \<and> (\<forall>seat \<in> dom m. seat < 4 \<and> idx seat < length ps
                   \<and> m seat = Some (ps ! idx seat)
                   \<and> (\<exists>c. player_score f (ps ! idx seat) = Inr c
                          \<and> \<bar>scores ! seat - c\<bar> < 100))"
    by blast
qed

theorem match_players_by_score_injective_witness:
  "match_players_by_score example_int_float example_players None = Inr Map.empty
   \<and> match_players_by_score example_int_float example_players (Some [22000, 35000, 15000, 28000])
     = Inr [0 \<mapsto> example_player 3 ''22000'', 1 \<mapsto> example_player 1 ''35000'',
            2 \<mapsto> example_player 4 ''15000'', 3 \<mapsto> example_player 2 ''28000'']
   \<and> (\<exists>idx. inj_on idx (dom [0 \<mapsto> example_player 3 ''22000'', 1 \<mapsto> example_player 1 ''35000'',
            2 \<mapsto> example_player 4 ''15000'', 3 \<mapsto> example_player 2 ''28000''])
          \<and> (\<forall>seat \<in> dom [0 \<mapsto> example_player 3 ''22000'', 1 \<mapsto> example_player 1 ''35000'',
            2 \<mapsto> example_player 4 ''15000'', 3 \<mapsto> example_player 2 ''28000''].
                seat < 4 \<and> idx seat < length example_players
                \<and> [0 \<mapsto> example_player 3 ''22000'', 1 \<mapsto> example_player 1 ''35000'',
            2 \<mapsto> example_player 4 ''15000'', 3 \<mapsto> example_player 2 ''28000''] seat
                    = Some (example_players ! idx seat)
                \<and> (\<exists>c. player_score example_int_float (example_players ! idx seat) = Inr c
                       \<and> \<bar>[22000, 35000, 15000, 28000] ! seat - c\<bar> < 100)))"
proof -
  let ?m = "[0 \<mapsto> example_player 3 ''22000'', 1 \<mapsto> example_player 1 ''35000'',
            2 \<mapsto> example_player 4 ''15000'', 3 \<mapsto> example_player 2 ''28000'']"
  let ?s = "[22000, 35000, 15000, 28000] :: int list"
  have e: "match_players_by_score example_int_float example_players (Some ?s) = Inr ?m"
    by (simp add: match_players_by_score_def example_players_def example_int_float_def
      player_score_def example_player_def numeral_2_eq_2 numeral_3_eq_3)
  note t = match_players_by_score_injective [of None example_int_float example_players ?s ?m]
  have a: "match_players_by_score example_int_float example_players None = Inr Map.empty"
    by (rule t [THEN conjunct1, THEN mp]) simp
  have b: "\<exists>idx. inj_on idx (dom ?m)
             \<and> (\<forall>seat \<in> dom ?m. seat < 4 \<and> idx seat < length example_players
                   \<and> ?m seat = Some (example_players ! idx seat)
                   \<and> (\<exists>c. player_score example_int_float (example_players ! idx seat) = Inr c
                          \<and> \<bar>?s ! seat - c\<bar> < 100))"
    by (rule t [THEN conjunct2, THEN mp]) (simp only: e list.size, simp)
  show ?thesis using a e b by (intro conjI)
qed

subsection \<open>Unknown fields in \<open>_decode_message\<close>\<close>

lemma decode_varint_loop_drop:
  "decode_varint_loop data (k + p) res sh =
     (case decode_varint_loop (drop k data) p res sh of
        Inl e \<Rightarrow> Inl e | Inr (v, q) \<Rightarrow> Inr (v, k + q))"
proof (induction "drop k data" p res sh arbitrary: rule: decode_varint_loop.induct)
  case (1 p res sh)
  show ?case
  proof (cases "p < length (drop k data)")
    case False
    then have "\<not> k + p < length data" by simp
    with False show ?thesis by simp
  next
    case True
    then have lt: "k + p < length data" by simp
    have nth: "drop k data ! p = data ! (k + p)" using lt by simp
    show ?thesis
    proof (cases "data ! (k + p) AND 0x80 = 0")
      case stop: True
      show ?thesis
        by (subst decode_varint_loop.simps, subst (2) decode_varint_loop.simps)
           (use True lt nth stop in \<open>simp add: Let_def\<close>)
    next
      case more: False
      have ih: "decode_varint_loop data (k + (p + 1))
           (res OR push_bit sh (uint (drop k data ! p) AND 0x7F)) (sh + 7) =
         (case decode_varint_loop (drop k data) (p + 1)
           (res OR push_bit sh (uint (drop k data ! p) AND 0x7F)) (sh + 7) of
            Inl e \<Rightarrow> Inl e | Inr (v, q) \<Rightarrow> Inr (v, k + q))"
        using "1.hyps" [OF True refl refl] more nth by simp
      show ?thesis
        by (subst decode_varint_loop.simps, subst (2) decode_varint_loop.simps)
           (use True lt nth more ih in \<open>simp add: Let_def add.assoc\<close>)
    qed
  qed
qed

lemma decode_varint_drop:
  "decode_varint data (k + p) =
     (case decode_varint (drop k data) p of
        Inl e \<Rightarrow> Inl e | Inr (v, q) \<Rightarrow> Inr (v, k + q))"
  unfolding decode_varint_def by (rule decode_varint_loop_drop)

lemma decode_varint_loop_append:
  "decode_varint_loop u p res sh = Inr (v, q) \<Longrightarrow>
   decode_varint_loop (u @ rest) p res sh = Inr (v, q)"
proof (induction u p res sh rule: decode_varint_loop.induct)
  case (1 u p res sh)
  from "1.prems" have lt: "p < length u"
    by (cases "p < length u") simp_all
  then have nth: "(u @ rest) ! p = u ! p" by (simp add: nth_append)
  show ?case
  proof (cases "u ! p AND 0x80 = 0")
    case stop: True
    with "1.prems" lt nth show ?thesis by (simp add: Let_def)
  next
    case more: False
    with "1.prems" lt have
      "decode_varint_loop u (p + 1) (res OR push_bit sh (uint (u ! p) AND 0x7F)) (sh + 7)
         = Inr (v, q)"
      by (simp add: Let_def)
    from "1.IH" [OF lt refl refl more this] more lt nth show ?thesis
      by (subst decode_varint_loop.simps) (simp add: Let_def)
  qed
qed

lemma decode_varint_append:
  "decode_varint u p = Inr (v, q) \<Longrightarrow> decode_varint (u @ rest) p = Inr (v, q)"
  unfolding decode_varint_def by (rule decode_varint_loop_append)


lemma decode_loop_drop:
  "decode_loop T by_id (drop k data) pos r = decode_loop T by_id data (k + pos) r"
proof (induction "length (drop k data) - pos" arbitrary: pos r rule: less_induct)
  case less
  let ?d = "drop k data"
  show ?case
  proof (cases "pos < length ?d")
    case False
    then have "\<not> k + pos < length data" by simp
    with False show ?thesis
      by (subst decode_loop.simps [of T by_id ?d], subst decode_loop.simps [of T by_id data])
         simp
  next
    case True
    then have lt: "k + pos < length data" by simp
    have lt': "pos < length data - k" using True by simp
    have IH: "decode_loop T by_id ?d pos' r' = decode_loop T by_id data (k + pos') r'"
      if "pos < pos'" for pos' r'
      using less.hyps [of pos' r'] that True by simp
    show ?thesis
    proof (cases "decode_varint ?d pos")
      case (Inl e)
      then have "decode_varint data (k + pos) = Inl e"
        by (simp add: decode_varint_drop)
      with Inl True lt show ?thesis
        by (subst decode_loop.simps [of T by_id ?d], subst decode_loop.simps [of T by_id data])
           simp
    next
      case (Inr x)
      obtain tag pos1 where x: "x = (tag, pos1)" by (cases x)
      have v1: "decode_varint ?d pos = Inr (tag, pos1)" using Inr x by simp
      have p1: "pos < pos1" using decode_varint_pos [OF v1] by simp
      have w1: "decode_varint data (k + pos) = Inr (tag, k + pos1)"
        using v1 by (simp add: decode_varint_drop)
      note IH1 = IH [OF p1]
      show ?thesis
      proof (cases "decode_varint ?d pos1")
        case (Inl e)
        then have w2: "decode_varint data (k + pos1) = Inl e"
          by (simp add: decode_varint_drop)
        show ?thesis
          by (subst decode_loop.simps [of T by_id ?d], subst decode_loop.simps [of T by_id data])
             (simp add: lt' lt v1 w1 Inl w2 IH1 Let_def split: option.splits)
      next
        case (Inr y)
        obtain v pos2 where y: "y = (v, pos2)" by (cases y)
        have v2: "decode_varint ?d pos1 = Inr (v, pos2)" using Inr y by simp
        have p2: "pos < pos2" using decode_varint_pos [OF v2] p1 by simp
        have w2: "decode_varint data (k + pos1) = Inr (v, k + pos2)"
          using v2 by (simp add: decode_varint_drop)
        have p3: "pos < pos2 + nat v" using p2 by simp
        note IH2 = IH [OF p2]
        have IH3: "decode_loop T by_id ?d (pos2 + nat v) r' =
            decode_loop T by_id data (k + pos2 + nat v) r'" for r'
          using IH [OF p3, of r'] by (simp add: add.assoc)
        have sl: "drop pos2 ?d = drop (k + pos2) data"
          by (simp add: add.commute)
        show ?thesis
          by (subst decode_loop.simps [of T by_id ?d], subst decode_loop.simps [of T by_id data])
             (simp add: lt' lt v1 w1 v2 w2 IH1 IH2 IH3 sl Let_def del: drop_drop
                split: option.splits sum.splits)
      qed
    qed
  qed
qed

lemma decode_loop_at_end:
  "decode_loop T by_id (pre @ rest) (length pre) r = decode_loop T by_id rest 0 r"
  using decode_loop_drop [of T by_id "length pre" "pre @ rest" 0 r] by simp

lemma decode_loop_skip:
  assumes tag: "decode_varint u 0 = Inr (tag, p1)"
    and unk: "by_id (drop_bit 3 tag) = None"
    and body: "(tag AND 0x7 = 0 \<and> (\<exists>v. decode_varint u p1 = Inr (v, length u)))
       \<or> (tag AND 0x7 = 2
           \<and> (\<exists>len p2. decode_varint u p1 = Inr (len, p2) \<and> p2 + nat len = length u))"
  shows "decode_loop T by_id (u @ rest) 0 r = decode_loop T by_id rest 0 r"
proof -
  have ne: "0 < length (u @ rest)" using decode_varint_pos [OF tag] by auto
  have t: "decode_varint (u @ rest) 0 = Inr (tag, p1)"
    using tag by (rule decode_varint_append)
  have e: "decode_loop T by_id (u @ rest) (length u) r = decode_loop T by_id rest 0 r"
    by (rule decode_loop_at_end)
  from body show ?thesis
  proof
    assume a: "tag AND 0x7 = 0 \<and> (\<exists>v. decode_varint u p1 = Inr (v, length u))"
    then obtain v where "decode_varint u p1 = Inr (v, length u)" by blast
    then have "decode_varint (u @ rest) p1 = Inr (v, length u)"
      by (rule decode_varint_append)
    with a ne t unk e show ?thesis
      by (subst decode_loop.simps) (simp add: Let_def)
  next
    assume a: "tag AND 0x7 = 2
           \<and> (\<exists>len p2. decode_varint u p1 = Inr (len, p2) \<and> p2 + nat len = length u)"
    then obtain len p2 where l: "decode_varint u p1 = Inr (len, p2)" "p2 + nat len = length u"
      by blast
    from l(1) have "decode_varint (u @ rest) p1 = Inr (len, p2)"
      by (rule decode_varint_append)
    with a ne t unk e l(2) show ?thesis
      by (subst decode_loop.simps) (simp add: Let_def)
  qed
qed

lemmas decode_eval =
  decode_message.simps decode_loop.simps lookup_type_def foo_types_def field_by_id_def
  decode_varint_def utf8_decode_def utf8_cont_def Let_def char_of_def bit_0 is_registered_def
  b64_char_def b64_alphabet_def

text \<open>
  The claim C1 as it is written fails on two buffers that start with the
  recognized field \<open>bar = "hi"\<close> of \<open>Foo\<close>. In the first the field is followed by
  a record of the unregistered field 2 with wire type 5 (four payload bytes): the
  loop consumes the tag only, reads the payload as records, and the result holds
  \<open>bar = "AB"\<close>. In the second it is followed by a varint record of field 2 that
  the buffer cuts short: the decoder raises \<open>IndexError\<close>.
\<close>

theorem decode_unknown_field_counterexample:
  "decode_message foo_types ''Foo'' [0x0a, 0x02, 0x68, 0x69] = Inr [(''bar'', VStr ''hi'')]
   \<and> decode_message foo_types ''Foo'' [0x0a, 0x02, 0x68, 0x69, 0x15, 0x0a, 0x02, 0x41, 0x42]
       = Inr [(''bar'', VStr ''AB'')]
   \<and> decode_message foo_types ''Foo'' [0x0a, 0x02, 0x68, 0x69, 0x10, 0x80] = Inl IndexError"
  by (simp add: decode_eval)

text \<open>
  Claim C1, amended. Let \<open>u\<close> be a complete record of a field number that the
  message type does not define, of wire type 0 (a tag and one varint) or of wire
  type 2 (a tag, a length and that many bytes). Then the record is skipped
  without raising and without any effect on the rest of the decoding: at a
  position where \<open>u\<close> starts, the loop continues exactly as it does on the buffer
  without \<open>u\<close>, whatever it has decoded so far; and a buffer that starts with
  \<open>u\<close> decodes to what the rest of the buffer decodes to.
\<close>

theorem decode_skips_unknown_record:
  assumes "lookup_type tys type_name = Some field_defs"
    and "decode_varint u 0 = Inr (tag, p1)"
    and "field_by_id field_defs (drop_bit 3 tag) = None"
    and "(tag AND 0x7 = 0 \<and> (\<exists>v. decode_varint u p1 = Inr (v, length u)))
       \<or> (tag AND 0x7 = 2
           \<and> (\<exists>len p2. decode_varint u p1 = Inr (len, p2) \<and> p2 + nat len = length u))"
  shows "decode_loop tys (field_by_id field_defs) (pre @ u @ rest) (length pre) result
           = decode_loop tys (field_by_id field_defs) (pre @ rest) (length pre) result
         \<and> decode_message tys type_name (u @ rest) = decode_message tys type_name rest"
proof -
  have s: "decode_loop tys (field_by_id field_defs) (u @ rest) 0 r
      = decode_loop tys (field_by_id field_defs) rest 0 r" for r
    using assms(2-4) by (rule decode_loop_skip)
  have "decode_loop tys (field_by_id field_defs) (pre @ u @ rest) (length pre) result
      = decode_loop tys (field_by_id field_defs) (u @ rest) 0 result"
    by (rule decode_loop_at_end)
  also have "\<dots> = decode_loop tys (field_by_id field_defs) rest 0 result"
    by (rule s)
  also have "\<dots> = decode_loop tys (field_by_id field_defs) (pre @ rest) (length pre) result"
    by (rule decode_loop_at_end [symmetric])
  finally have 1: "decode_loop tys (field_by_id field_defs) (pre @ u @ rest) (length pre) result
           = decode_loop tys (field_by_id field_defs) (pre @ rest) (length pre) result" .
  have 2: "decode_message tys type_name (u @ rest) = decode_message tys type_name rest"
    using assms(1) s [of "[]"] by (simp add: decode_message.simps)
  from 1 2 show ?thesis by (rule conjI)
qed

theorem decode_skips_unknown_record_witness:
  "decode_message foo_types ''Foo'' ([0x10, 0x05] @ [0x0a, 0x02, 0x68, 0x69])
     = Inr [(''bar'', VStr ''hi'')]
   \<and> decode_message foo_types ''Foo'' ([0x1a, 0x02, 0x41, 0x42] @ [0x0a, 0x02, 0x68, 0x69])
     = Inr [(''bar'', VStr ''hi'')]
   \<and> decode_message foo_types ''Foo'' ([0x0a, 0x02, 0x68, 0x69] @ [0x10, 0x05] @ [])
     = Inr [(''bar'', VStr ''hi'')]"
proof -
  let ?fs = "[(''bar'', \<lparr>fd_id = 1, fd_type = ''string'', fd_rule = None\<rparr>)]"
  let ?k = "[0x0a, 0x02, 0x68, 0x69] :: byte list"
  have l: "lookup_type foo_types ''Foo'' = Some ?fs"
    by (simp add: lookup_type_def foo_types_def)
  have k: "decode_message foo_types ''Foo'' ?k = Inr [(''bar'', VStr ''hi'')]"
    by (simp add: decode_eval)
  have a: "decode_message foo_types ''Foo'' ([0x10, 0x05] @ ?k) = decode_message foo_types ''Foo'' ?k"
    by (rule decode_skips_unknown_record
          [of foo_types "''Foo''" ?fs "[0x10, 0x05]" 16 1 "[]" ?k "[]", THEN conjunct2])
       (simp_all add: l decode_varint_def field_by_id_def)
  have b: "decode_message foo_types ''Foo'' ([0x1a, 0x02, 0x41, 0x42] @ ?k)
      = decode_message foo_types ''Foo'' ?k"
    by (rule decode_skips_unknown_record
          [of foo_types "''Foo''" ?fs "[0x1a, 0x02, 0x41, 0x42]" 26 1 "[]" ?k "[]", THEN conjunct2])
       (simp_all add: l decode_varint_def field_by_id_def)
  have c: "decode_loop foo_types (field_by_id ?fs) (?k @ [0x10, 0x05] @ []) (length ?k)
             [(''bar'', VStr ''hi'')]
           = decode_loop foo_types (field_by_id ?fs) (?k @ []) (length ?k) [(''bar'', VStr ''hi'')]"
    by (rule decode_skips_unknown_record
          [of foo_types "''Foo''" ?fs "[0x10, 0x05]" 16 1 ?k "[]" "[(''bar'', VStr ''hi'')]",
           THEN conjunct1])
       (simp_all add: l decode_varint_def field_by_id_def)
  have d: "decode_message foo_types ''Foo'' (?k @ [0x10, 0x05] @ [])
      = decode_loop foo_types (field_by_id ?fs) (?k @ [0x10, 0x05] @ []) (length ?k)
             [(''bar'', VStr ''hi'')]"
    by (simp add: decode_eval)
  have e: "decode_loop foo_types (field_by_id ?fs) (?k @ []) (length ?k) [(''bar'', VStr ''hi'')]
      = Inr [(''bar'', VStr ''hi'')]"
    by (simp add: decode_loop.simps)
  show ?thesis using a b k c d e by simp
qed

subsection \<open>Unregistered type names\<close>

text \<open>
  Claim C6. For a type name that the registry holds neither as it is nor with the
  prefix \<open>lq.\<close>, and for every buffer, \<open>_decode_message\<close> raises nothing and
  returns the marker dictionary whose one entry \<open>_raw\<close> holds the base64 text of
  the buffer.
\<close>

theorem decode_message_unknown_type:
  "tys type_name = None \<Longrightarrow> tys (''lq.'' @ type_name) = None \<Longrightarrow>
   decode_message tys type_name data = Inr [(''_raw'', VStr (b64encode data))]"
  by (simp add: decode_message.simps lookup_type_def)

theorem decode_message_unknown_type_witness:
  "foo_types ''Bar'' = None \<and> foo_types (''lq.'' @ ''Bar'') = None
   \<and> decode_message foo_types ''Bar'' [0x0a, 0x02, 0x68, 0x69] = Inr [(''_raw'', VStr ''CgJoaQ=='')]"
proof -
  have a: "foo_types ''Bar'' = None" and b: "foo_types (''lq.'' @ ''Bar'') = None"
    by (simp_all add: foo_types_def)
  from decode_message_unknown_type [OF a b, of "[0x0a, 0x02, 0x68, 0x69]"] a b
  show ?thesis by (simp add: b64_char_def b64_alphabet_def)
qed

subsection \<open>The encoding of \<open>Foo\<close>\<close>

text \<open>
  Claim C8. With the schema \<open>Foo\<close> of the single field \<open>bar\<close>, id 1 and type
  string, encoding \<open>{bar: "hi"}\<close> against \<open>Foo\<close> gives exactly the four bytes
  0a 02 68 69: the tag, the length and the two bytes of the text.
\<close>

theorem encode_message_example:
  "encode_message int_of_text foo_types ''Foo'' [(''bar'', VStr ''hi'')]
     = Inr [0x0a, 0x02, 0x68, 0x69]"
  by (simp add: encode_message.simps foo_types_def lookup_type_def encode_string_def
      encode_field_def encode_varint_def utf8_encode_def)

subsection \<open>Sequence ids of requests\<close>

lemma low7_range: "0 \<le> ((v AND 0x7F) OR 0x80) \<and> ((v AND 0x7F) OR 0x80) < (256::int)"
proof -
  have a: "0 \<le> v AND 0x7F" by simp
  have b: "v AND 0x7F \<le> 0x7F" by (rule AND_upper2) simp
  have "(v AND 0x7F) OR 0x80 < 2 ^ 8"
    by (rule OR_upper) (use a b in simp_all)
  then show ?thesis by simp
qed

lemma py_bytes_in_range:
  "(\<forall>x \<in> set xs. 0 \<le> x \<and> x < 256) \<Longrightarrow> \<exists>bs. py_bytes xs = Inr bs"
  by (induction xs) auto

lemma encode_varint_loop_in_range:
  "0 \<le> v \<Longrightarrow> (\<forall>x \<in> set acc. 0 \<le> x \<and> x < 256) \<Longrightarrow>
   (\<forall>x \<in> set (encode_varint_loop v acc). 0 \<le> x \<and> x < 256)"
proof (induction v acc rule: encode_varint_loop.induct)
  case (1 v result)
  show ?case
  proof (cases "v > 127")
    case True
    have "\<forall>x \<in> set (encode_varint_loop (drop_bit 7 v) (result @ [(v AND 0x7F) OR 0x80])).
            0 \<le> x \<and> x < 256"
      using True "1.prems" low7_range [of v] by (intro "1.IH") auto
    then show ?thesis using True by (subst encode_varint_loop.simps) simp
  next
    case False
    then show ?thesis using "1.prems" by (subst encode_varint_loop.simps) auto
  qed
qed

lemma encode_varint_nonneg: "0 \<le> v \<Longrightarrow> \<exists>bs. encode_varint v = Inr bs"
  unfolding encode_varint_def
  by (rule py_bytes_in_range) (rule encode_varint_loop_in_range, simp_all)

lemma encode_string_wrapper:
  "\<exists>bs. encode_string 1 v = Inr bs" "\<exists>bs. encode_string 2 v = Inr bs"
proof -
  obtain l where l: "encode_varint (int (length v)) = Inr l"
    using encode_varint_nonneg [of "int (length v)"] by auto
  show "\<exists>bs. encode_string 1 v = Inr bs" "\<exists>bs. encode_string 2 v = Inr bs"
    using l by (simp_all add: encode_string_def encode_field_def encode_varint_def)
qed

lemma encode_request_msg_index:
  "msg_index (snd (encode_request f c m p)) = msg_index c + 1"
  by (simp add: encode_request_def Let_def split: option.splits)

lemma encode_request_registries:
  "types (snd (encode_request f c m p)) = types c"
  "services (snd (encode_request f c m p)) = services c"
  by (simp_all add: encode_request_def Let_def split: option.splits)

lemma after_heartbeats:
  "msg_index ((after_heartbeat ^^ n) c) = msg_index c + int n
   \<and> types ((after_heartbeat ^^ n) c) = types c
   \<and> services ((after_heartbeat ^^ n) c) = services c"
  by (induction n)
     (simp_all add: after_heartbeat_def encode_request_msg_index encode_request_registries)

lemma heartbeat_parts:
  "split_on CHR ''.'' [] (dropWhile (\<lambda>ch. ch = CHR ''.'') ''.lq.Lobby.heatbeat'')
     = [''lq'', ''Lobby'', ''heatbeat'']"
  by simp

lemma heartbeat_payload:
  "encode_message no_int_of_text (types lobby_codec) ''ReqHeatBeat''
     [(''no_operation_counter'', VInt 0)] = Inr [0x08, 0x00]"
  by (simp add: encode_message.simps lobby_codec_def new_codec_def lookup_type_def py_int_def
      encode_field_def encode_varint_def)

text \<open>
  The claim C4 as it is written fails: the counter does not wrap. After 65535
  heartbeat requests in one session the counter is 65535, and the next
  \<open>encode_request\<close> raises \<open>struct.error\<close>, where the claim has it succeed with
  the id 0.
\<close>

theorem encode_request_wrap_counterexample:
  "msg_index ((after_heartbeat ^^ 65535) lobby_codec) = 65535
   \<and> fst (encode_request no_int_of_text ((after_heartbeat ^^ 65535) lobby_codec)
            ''.lq.Lobby.heatbeat'' [(''no_operation_counter'', VInt 0)]) = Inl StructError"
proof -
  let ?c = "(after_heartbeat ^^ 65535) lobby_codec"
  have m: "msg_index ?c = 65535"
    using after_heartbeats [of 65535 lobby_codec] by (simp add: lobby_codec_def new_codec_def)
  have t: "types ?c = types lobby_codec" and s: "services ?c = services lobby_codec"
    using after_heartbeats [of 65535 lobby_codec] by simp_all
  have "services lobby_codec ''lq.Lobby''
      = Some [''heatbeat'' \<mapsto> \<lparr>requestType = ''ReqHeatBeat'', responseType = ''ResCommon''\<rparr>]"
    by (simp add: lobby_codec_def new_codec_def)
  then have sv: "services ?c (join_dot [''lq'', ''Lobby''])
      = Some [''heatbeat'' \<mapsto> \<lparr>requestType = ''ReqHeatBeat'', responseType = ''ResCommon''\<rparr>]"
    unfolding s by simp
  have pe: "encode_message no_int_of_text (types ?c) ''ReqHeatBeat''
      [(''no_operation_counter'', VInt 0)] = Inr [0x08, 0x00]"
    unfolding t by (rule heartbeat_payload)
  obtain w1 where w1: "encode_string 1 (utf8_encode ''.lq.Lobby.heatbeat'') = Inr w1"
    using encode_string_wrapper(1) by blast
  obtain w2 where w2: "encode_string 2 [0x08, 0x00] = Inr w2"
    using encode_string_wrapper(2) by blast
  have id: "struct_pack_H (msg_index ?c + 1) = Inl StructError"
    unfolding m by (simp add: struct_pack_H_def)
  have "fst (encode_request no_int_of_text ?c ''.lq.Lobby.heatbeat''
            [(''no_operation_counter'', VInt 0)]) = Inl StructError"
    unfolding encode_request_def Let_def heartbeat_parts
    using sv pe w1 w2 id by simp
  with m show ?thesis by simp
qed

text \<open>
  Claim C4, amended. The counter of a new codec is 0 and every call of
  \<open>encode_request\<close> increments it. When fewer than 65535 requests came before,
  the method name resolves and the payload encodes, the call succeeds; its frame
  is the byte 2, the new counter value as two bytes, low byte first, and the two
  envelope fields; and the pending table gets the entry of the new id. So three
  calls in a row carry the ids 1, 2 and 3. The counter does not wrap at 16 bits.
\<close>

theorem encode_request_sequence_id:
  assumes "0 \<le> msg_index c" and "msg_index c < 65535"
    and "split_on CHR ''.'' [] (dropWhile (\<lambda>ch. ch = CHR ''.'') method_name) = parts"
    and "3 \<le> length parts"
    and "services c (join_dot (butlast parts)) = Some service"
    and "service (last parts) = Some md"
    and "encode_message int_of_text (types c) (requestType md) payload = Inr request_data"
  shows "\<exists>w1 w2. encode_string 1 (utf8_encode method_name) = Inr w1
           \<and> encode_string 2 request_data = Inr w2
           \<and> fst (encode_request int_of_text c method_name payload)
               = Inr ([2, word_of_int ((msg_index c + 1) mod 256),
                          word_of_int ((msg_index c + 1) div 256)] @ w1 @ w2)
           \<and> msg_index (snd (encode_request int_of_text c method_name payload))
               = msg_index c + 1
           \<and> pending_requests (snd (encode_request int_of_text c method_name payload))
               = (pending_requests c)(msg_index c + 1 \<mapsto> (method_name, responseType md))"
proof -
  obtain w1 where w1: "encode_string 1 (utf8_encode method_name) = Inr w1"
    using encode_string_wrapper(1) by blast
  obtain w2 where w2: "encode_string 2 request_data = Inr w2"
    using encode_string_wrapper(2) by blast
  have id: "struct_pack_H (msg_index c + 1)
      = Inr [word_of_int ((msg_index c + 1) mod 256), word_of_int ((msg_index c + 1) div 256)]"
    using assms(1,2) by (simp add: struct_pack_H_def)
  have "encode_string 1 (utf8_encode method_name) = Inr w1
           \<and> encode_string 2 request_data = Inr w2
           \<and> fst (encode_request int_of_text c method_name payload)
               = Inr ([2, word_of_int ((msg_index c + 1) mod 256),
                          word_of_int ((msg_index c + 1) div 256)] @ w1 @ w2)
           \<and> msg_index (snd (encode_request int_of_text c method_name payload))
               = msg_index c + 1
           \<and> pending_requests (snd (encode_request int_of_text c method_name payload))
               = (pending_requests c)(msg_index c + 1 \<mapsto> (method_name, responseType md))"
    using assms(3-7) w1 w2 id by (simp add: encode_request_def Let_def)
  then show ?thesis by blast
qed

theorem encode_request_sequence_id_witness:
  "(\<exists>w. fst (encode_request no_int_of_text lobby_codec ''.lq.Lobby.heatbeat''
               [(''no_operation_counter'', VInt 0)]) = Inr ([2, 1, 0] @ w))
   \<and> (\<exists>w. fst (encode_request no_int_of_text (after_heartbeat lobby_codec)
               ''.lq.Lobby.heatbeat'' [(''no_operation_counter'', VInt 0)])
             = Inr ([2, 2, 0] @ w))
   \<and> (\<exists>w. fst (encode_request no_int_of_text (after_heartbeat (after_heartbeat lobby_codec))
               ''.lq.Lobby.heatbeat'' [(''no_operation_counter'', VInt 0)])
             = Inr ([2, 3, 0] @ w))"
proof -
  let ?md = "\<lparr>requestType = ''ReqHeatBeat'', responseType = ''ResCommon''\<rparr>"
  let ?svc = "[''heatbeat'' \<mapsto> ?md]"
  let ?c1 = "after_heartbeat lobby_codec"
  let ?c2 = "after_heartbeat ?c1"
  have sv: "services lobby_codec (join_dot (butlast [''lq'', ''Lobby'', ''heatbeat''])) = Some ?svc"
    by (simp add: lobby_codec_def new_codec_def)
  have md: "?svc (last [''lq'', ''Lobby'', ''heatbeat'']) = Some ?md"
    by simp
  have m0: "msg_index lobby_codec = 0"
    by (simp add: lobby_codec_def new_codec_def)
  have m1: "msg_index ?c1 = 1" and t1: "types ?c1 = types lobby_codec"
    and s1: "services ?c1 = services lobby_codec"
    by (simp_all add: after_heartbeat_def encode_request_msg_index encode_request_registries m0)
  have m2: "msg_index ?c2 = 2" and t2: "types ?c2 = types lobby_codec"
    and s2: "services ?c2 = services lobby_codec"
    by (simp_all add: after_heartbeat_def [of ?c1] encode_request_msg_index
        encode_request_registries m1 t1 s1)
  have pe: "encode_message no_int_of_text (types lobby_codec) (requestType ?md)
      [(''no_operation_counter'', VInt 0)] = Inr [0x08, 0x00]"
    using heartbeat_payload by simp
  have a: "\<exists>w. fst (encode_request no_int_of_text lobby_codec ''.lq.Lobby.heatbeat''
               [(''no_operation_counter'', VInt 0)]) = Inr ([2, 1, 0] @ w)"
    using encode_request_sequence_id [of lobby_codec "''.lq.Lobby.heatbeat''"
        "[''lq'', ''Lobby'', ''heatbeat'']" ?svc ?md no_int_of_text
        "[(''no_operation_counter'', VInt 0)]" "[0x08, 0x00]"]
      heartbeat_parts sv md pe m0
    by auto
  have b: "\<exists>w. fst (encode_request no_int_of_text ?c1 ''.lq.Lobby.heatbeat''
               [(''no_operation_counter'', VInt 0)]) = Inr ([2, 2, 0] @ w)"
    using encode_request_sequence_id [of ?c1 "''.lq.Lobby.heatbeat''"
        "[''lq'', ''Lobby'', ''heatbeat'']" ?svc ?md no_int_of_text
        "[(''no_operation_counter'', VInt 0)]" "[0x08, 0x00]"]
      heartbeat_parts sv md pe m1 t1 s1
    by auto
  have c: "\<exists>w. fst (encode_request no_int_of_text ?c2 ''.lq.Lobby.heatbeat''
               [(''no_operation_counter'', VInt 0)]) = Inr ([2, 3, 0] @ w)"
    using encode_request_sequence_id [of ?c2 "''.lq.Lobby.heatbeat''"
        "[''lq'', ''Lobby'', ''heatbeat'']" ?svc ?md no_int_of_text
        "[(''no_operation_counter'', VInt 0)]" "[0x08, 0x00]"]
      heartbeat_parts sv md pe m2 t2 s2
    by auto
  from a b c show ?thesis by (intro conjI)
qed

subsection \<open>Ordered failover\<close>

lemma connect_loop_success:
  "\<forall>x \<in> set pre. \<not> accepts probe ws_connect x \<Longrightarrow> probe s \<noteq> ProbeAnswer True \<Longrightarrow>
   ws_connect s = Inr ws \<Longrightarrow>
   connect_loop probe ws_connect (pre @ s # post) last_error printed
     = (Inr ws, printed @ concat (map (failed_lines probe ws_connect) pre)
                  @ [Connecting s, Connected])"
proof (induction pre arbitrary: last_error printed)
  case Nil
  then show ?case by simp
next
  case (Cons x pre)
  show ?case
  proof (cases "probe x = ProbeAnswer True")
    case True
    then show ?thesis using Cons by (simp add: failed_lines_def)
  next
    case False
    with Cons.prems(1) obtain e where "ws_connect x = Inl e"
      by (cases "ws_connect x") (auto simp: accepts_def)
    with False show ?thesis using Cons by (simp add: failed_lines_def)
  qed
qed

lemma connect_loop_failure:
  "\<forall>x \<in> set servers. \<not> accepts probe ws_connect x \<Longrightarrow>
   connect_loop probe ws_connect servers last_error printed
     = (Inl (FailedToConnectToAny (last_failure probe ws_connect last_error servers)),
        printed @ concat (map (failed_lines probe ws_connect) servers))"
proof (induction servers arbitrary: last_error printed)
  case Nil
  then show ?case by simp
next
  case (Cons x servers)
  show ?case
  proof (cases "probe x = ProbeAnswer True")
    case True
    then show ?thesis using Cons by (simp add: failed_lines_def)
  next
    case False
    with Cons.prems(1) obtain e where "ws_connect x = Inl e"
      by (cases "ws_connect x") (auto simp: accepts_def)
    with False show ?thesis using Cons by (simp add: failed_lines_def)
  qed
qed

lemma connect_loop_probe_failed:
  "connect_loop (\<lambda>s. if probe s = ProbeFailed then ProbeAnswer False else probe s)
     ws_connect servers last_error printed
   = connect_loop probe ws_connect servers last_error printed"
  by (induction servers arbitrary: last_error printed) (auto split: sum.splits)

lemma last_failure_last:
  "servers \<noteq> [] \<Longrightarrow> probe (last servers) \<noteq> ProbeAnswer True \<Longrightarrow>
   ws_connect (last servers) = Inl e \<Longrightarrow>
   last_failure probe ws_connect last_error servers = Some e"
  by (induction servers arbitrary: last_error) (auto split: if_splits)

text \<open>
  Claim C7. \<open>connect\<close> tries the hosts in the order of the list. When some host
  accepts, it returns with the socket of the first such host and has printed,
  for every host before it, the maintenance notice or the failure of that host,
  which has no other effect. When the list is not empty and no host accepts, it
  raises the error that carries \<open>last_error\<close>, the error of the last attempted
  connection; when the last host of the list was attempted, that is the error
  of the last host. A probe that fails changes nothing: the outcome is the one
  for a probe that answers "no maintenance".
\<close>

theorem connect_failover:
  "(servers = pre @ s # post \<and> (\<forall>x \<in> set pre. \<not> accepts probe ws_connect x)
      \<and> probe s \<noteq> ProbeAnswer True \<and> ws_connect s = Inr ws
      \<longrightarrow> connect probe ws_connect servers
            = (Inr ws, concat (map (failed_lines probe ws_connect) pre)
                        @ [Connecting s, Connected]))
   \<and> (servers \<noteq> [] \<and> (\<forall>x \<in> set servers. \<not> accepts probe ws_connect x)
      \<longrightarrow> connect probe ws_connect servers
            = (Inl (FailedToConnectToAny (last_failure probe ws_connect None servers)),
               concat (map (failed_lines probe ws_connect) servers)))
   \<and> (servers \<noteq> [] \<and> (\<forall>x \<in> set servers. \<not> accepts probe ws_connect x)
        \<and> probe (last servers) \<noteq> ProbeAnswer True \<and> ws_connect (last servers) = Inl e
      \<longrightarrow> fst (connect probe ws_connect servers) = Inl (FailedToConnectToAny (Some e)))
   \<and> connect (\<lambda>s. if probe s = ProbeFailed then ProbeAnswer False else probe s)
        ws_connect servers
      = connect probe ws_connect servers"
proof (intro conjI impI)
  assume a: "servers = pre @ s # post \<and> (\<forall>x \<in> set pre. \<not> accepts probe ws_connect x)
      \<and> probe s \<noteq> ProbeAnswer True \<and> ws_connect s = Inr ws"
  then show "connect probe ws_connect servers
            = (Inr ws, concat (map (failed_lines probe ws_connect) pre)
                        @ [Connecting s, Connected])"
    using connect_loop_success [of pre probe ws_connect s ws post None "[]"]
    by (simp add: connect_def)
next
  assume a: "servers \<noteq> [] \<and> (\<forall>x \<in> set servers. \<not> accepts probe ws_connect x)"
  then show "connect probe ws_connect servers
            = (Inl (FailedToConnectToAny (last_failure probe ws_connect None servers)),
               concat (map (failed_lines probe ws_connect) servers))"
    using connect_loop_failure [of servers probe ws_connect None "[]"]
    by (simp add: connect_def)
next
  assume a: "servers \<noteq> [] \<and> (\<forall>x \<in> set servers. \<not> accepts probe ws_connect x)
        \<and> probe (last servers) \<noteq> ProbeAnswer True \<and> ws_connect (last servers) = Inl e"
  then show "fst (connect probe ws_connect servers) = Inl (FailedToConnectToAny (Some e))"
    using connect_loop_failure [of servers probe ws_connect None "[]"]
      last_failure_last [of servers probe ws_connect e None]
    by (simp add: connect_def)
next
  show "connect (\<lambda>s. if probe s = ProbeFailed then ProbeAnswer False else probe s)
        ws_connect servers
      = connect probe ws_connect servers"
    by (simp add: connect_def connect_loop_probe_failed)
qed

theorem connect_failover_witness:
  "connect example_probe example_ws_connect [''A'', ''B'']
     = (Inr 7, [Connecting ''A'', FailedToConnect ''A'' ''refused'', Connecting ''B'', Connected])
   \<and> connect example_probe example_ws_connect [''A'', ''C'']
     = (Inl (FailedToConnectToAny (Some ''refused'')),
        [Connecting ''A'', FailedToConnect ''A'' ''refused'',
         Connecting ''C'', FailedToConnect ''C'' ''refused''])
   \<and> fst (connect example_probe example_ws_connect [''C''])
     = Inl (FailedToConnectToAny (Some ''refused''))"
proof -
  have na: "\<not> accepts example_probe example_ws_connect ''A''"
    and nc: "\<not> accepts example_probe example_ws_connect ''C''"
    by (simp_all add: accepts_def example_ws_connect_def)
  have 1: "connect example_probe example_ws_connect [''A'', ''B'']
      = (Inr 7, concat (map (failed_lines example_probe example_ws_connect) [''A''])
                  @ [Connecting ''B'', Connected])"
    using connect_failover [of "[''A'', ''B'']" "[''A'']" "''B''" "[]" example_probe
        example_ws_connect 7 "''refused''"] na
    by (simp add: example_probe_def example_ws_connect_def)
  have 2: "connect example_probe example_ws_connect [''A'', ''C'']
      = (Inl (FailedToConnectToAny (last_failure example_probe example_ws_connect None
               [''A'', ''C''])),
         concat (map (failed_lines example_probe example_ws_connect) [''A'', ''C'']))"
    using connect_failover [of "[''A'', ''C'']" "[]" "''B''" "[]" example_probe
        example_ws_connect 7 "''refused''"] na nc
    by simp
  have 3: "fst (connect example_probe example_ws_connect [''C''])
      = Inl (FailedToConnectToAny (Some ''refused''))"
    using connect_failover [of "[''C'']" "[]" "''B''" "[]" example_probe
        example_ws_connect 7 "''refused''"] nc
    by (simp add: example_probe_def example_ws_connect_def)
  show ?thesis
    unfolding 1 2 3 by (simp add: failed_lines_def example_probe_def example_ws_connect_def)
qed

subsection \<open>The error policy of \<open>parse_game_record\<close>\<close>

























end
